theory Spec2Isabelle
  imports Main
begin

section \<open>The store of nodes and the list object\<close>

text \<open>
  The program of \<^verbatim>\<open>library/names.py\<close> builds a chain of \<^verbatim>\<open>Node\<close> objects that
  are mutated in place, so the objects live in an explicit store: an address is a
  natural number, the store maps every address to the fields of the object there, and
  \<open>fresh\<close> is the first address that no object has been given yet. A Python reference
  is \<open>None\<close> or an address; it can never dangle, hence the store is total.
  The field \<^verbatim>\<open>next\<close> is written \<open>nxt\<close>.
\<close>

type_synonym addr = nat

record Node =
  name :: string
  nxt :: "addr option"

record state =
  heap :: "addr \<Rightarrow> Node"
  fresh :: addr
  head :: "addr option"

text \<open>\<^verbatim>\<open>Node.__init__\<close>: the name is stored, the successor is \<^verbatim>\<open>None\<close>.\<close>

definition Node_init :: "string \<Rightarrow> Node" where
  "Node_init nm = \<lparr>name = nm, nxt = None\<rparr>"

text \<open>
  \<^verbatim>\<open>LinkedList.__init__\<close> sets \<^verbatim>\<open>self.head = None\<close>. The program starts with no
  node allocated.
\<close>

definition LinkedList_init :: state where
  "LinkedList_init = \<lparr>heap = (\<lambda>_. Node_init []), fresh = 0, head = None\<rparr>"

section \<open>The three methods\<close>

text \<open>
  Each \<^verbatim>\<open>while\<close> loop walks the store along \<open>nxt\<close> and would run forever on a
  cyclic chain, so each is a partial function whose value \<open>None\<close> stands for a loop
  that does not return.
\<close>

text \<open>\<^verbatim>\<open>while current.next: current = current.next\<close>, returning the last node.\<close>

partial_function (option) add_loop :: "(addr \<Rightarrow> Node) \<Rightarrow> addr \<Rightarrow> addr option" where
  "add_loop h current =
     (case nxt (h current) of
        Some n \<Rightarrow> add_loop h n
      | None \<Rightarrow> Some current)"

definition add :: "string \<Rightarrow> state \<Rightarrow> state option" where
  "add nm s =
     (let new_node = fresh s;
          s1 = s\<lparr>heap := (heap s)(new_node := Node_init nm), fresh := Suc new_node\<rparr>
      in case head s1 of
           None \<Rightarrow> Some (s1\<lparr>head := Some new_node\<rparr>)
         | Some c \<Rightarrow>
             (case add_loop (heap s1) c of
                None \<Rightarrow> None
              | Some l \<Rightarrow>
                  Some (s1\<lparr>heap := (heap s1)(l := (heap s1 l)\<lparr>nxt := Some new_node\<rparr>)\<rparr>)))"

text \<open>
  The loop of \<^verbatim>\<open>remove\<close>, with its two variables \<^verbatim>\<open>current\<close> and \<^verbatim>\<open>prev\<close>.
  The result is the returned boolean and the state the method leaves.
\<close>

partial_function (option) remove_loop ::
  "string \<Rightarrow> state \<Rightarrow> addr option \<Rightarrow> addr option \<Rightarrow> (bool \<times> state) option" where
  "remove_loop nm s current prev =
     (case current of
        None \<Rightarrow> Some (False, s)
      | Some c \<Rightarrow>
          if name (heap s c) = nm then
            (case prev of
               Some p \<Rightarrow>
                 Some (True, s\<lparr>heap := (heap s)(p := (heap s p)\<lparr>nxt := nxt (heap s c)\<rparr>)\<rparr>)
             | None \<Rightarrow> Some (True, s\<lparr>head := nxt (heap s c)\<rparr>))
          else remove_loop nm s (nxt (heap s c)) (Some c))"

definition remove :: "string \<Rightarrow> state \<Rightarrow> (bool \<times> state) option" where
  "remove nm s = remove_loop nm s (head s) None"

text \<open>
  \<^verbatim>\<open>display\<close> writes to the console: the output of a call is the list of the strings
  it has passed to \<^verbatim>\<open>print\<close>, in order, and \<open>out\<close> is what the call has printed so
  far. The result is this output and the state the method leaves.
\<close>

partial_function (option) display_loop ::
  "state \<Rightarrow> addr option \<Rightarrow> string list \<Rightarrow> (string list \<times> state) option" where
  "display_loop s current out =
     (case current of
        None \<Rightarrow> Some (out, s)
      | Some c \<Rightarrow> display_loop s (nxt (heap s c)) (out @ [name (heap s c)]))"

definition display :: "state \<Rightarrow> (string list \<times> state) option" where
  "display s =
     (let current = head s
      in case current of
           None \<Rightarrow> Some ([''The list is empty.''], s)
         | Some c \<Rightarrow> display_loop s current [])"

declare add_loop.simps [code] remove_loop.simps [code] display_loop.simps [code]

text \<open>A sequence of \<^verbatim>\<open>add\<close> calls, as in the usage example of the module.\<close>

fun adds :: "string list \<Rightarrow> state \<Rightarrow> state option" where
  "adds [] s = Some s"
| "adds (n # ns) s = Option.bind (add n s) (adds ns)"

text \<open>Any sequence of calls of the three methods; the returned values are dropped.\<close>

datatype call = Add string | Remove string | Display

fun exec :: "call \<Rightarrow> state \<Rightarrow> state option" where
  "exec (Add n) s = add n s"
| "exec (Remove n) s = map_option snd (remove n s)"
| "exec Display s = map_option snd (display s)"

fun run :: "call list \<Rightarrow> state \<Rightarrow> state option" where
  "run [] s = Some s"
| "run (c # cs) s = Option.bind (exec c s) (run cs)"

section \<open>What a state holds\<close>

text \<open>
  \<open>segment h p as q\<close>: starting at reference \<open>p\<close> and following \<open>nxt\<close> in the store
  \<open>h\<close>, one visits exactly the nodes \<open>as\<close>, in this order, and arrives at \<open>q\<close>.
\<close>

fun segment :: "(addr \<Rightarrow> Node) \<Rightarrow> addr option \<Rightarrow> addr list \<Rightarrow> addr option \<Rightarrow> bool" where
  "segment h p [] q = (p = q)"
| "segment h p (a # as) q = (p = Some a \<and> segment h (nxt (h a)) as q)"

text \<open>
  \<open>cells s as\<close>: the nodes of the list, head to tail, are \<open>as\<close>: the walk from
  \<open>head\<close> ends at \<open>None\<close> after them, and each of them has been allocated.
  \<open>names_at s as\<close> are the names these nodes hold: the sequence of names of the list.
\<close>

definition cells :: "state \<Rightarrow> addr list \<Rightarrow> bool" where
  "cells s as \<longleftrightarrow> segment (heap s) (head s) as None \<and> list_all (\<lambda>a. a < fresh s) as"

definition names_at :: "state \<Rightarrow> addr list \<Rightarrow> string list" where
  "names_at s as = map (\<lambda>a. name (heap s a)) as"

text \<open>
  \<open>single_predecessor h p live\<close>: among the nodes \<open>live\<close>, no two have the same
  successor node, and none has as successor the node that the head reference \<open>p\<close>
  points to. So every node is referenced at most once, by a node or by a head.
\<close>

definition single_predecessor :: "(addr \<Rightarrow> Node) \<Rightarrow> addr option \<Rightarrow> addr list \<Rightarrow> bool" where
  "single_predecessor h p live \<longleftrightarrow>
     (\<forall>a\<in>set live. \<forall>b\<in>set live. nxt (h a) = nxt (h b) \<longrightarrow> nxt (h a) = None \<or> a = b) \<and>
     (\<forall>a\<in>set live. nxt (h a) = None \<or> nxt (h a) \<noteq> p)"

text \<open>The list that the usage example of the module builds with four calls of \<^verbatim>\<open>add\<close>.\<close>

definition example_list :: state where
  "example_list =
     \<lparr>heap = (\<lambda>_. Node_init [])
        (0 := \<lparr>name = ''Alice'', nxt = Some 1\<rparr>,
         1 := \<lparr>name = ''Bob'', nxt = Some 2\<rparr>,
         2 := \<lparr>name = ''Charlie'', nxt = Some 3\<rparr>,
         3 := \<lparr>name = ''Garfield'', nxt = None\<rparr>),
      fresh = 4,
      head = Some 0\<rparr>"

text \<open>A list in which a name occurs twice.\<close>

definition example_duplicates :: state where
  "example_duplicates =
     \<lparr>heap = (\<lambda>_. Node_init [])
        (0 := \<lparr>name = ''Alice'', nxt = Some 1\<rparr>,
         1 := \<lparr>name = ''Bob'', nxt = Some 2\<rparr>,
         2 := \<lparr>name = ''Charlie'', nxt = Some 3\<rparr>,
         3 := \<lparr>name = ''Bob'', nxt = None\<rparr>),
      fresh = 4,
      head = Some 0\<rparr>"

text \<open>
  A store with two lists: the nodes 0 and 2 from \<open>head\<close>, and a second list with the
  nodes 1 and 3, whose head reference is \<open>Some 1\<close>.
\<close>

definition two_lists :: state where
  "two_lists =
     \<lparr>heap = (\<lambda>_. Node_init [])
        (0 := \<lparr>name = ''Alice'', nxt = Some 2\<rparr>,
         1 := \<lparr>name = ''Bob'', nxt = Some 3\<rparr>,
         2 := \<lparr>name = ''Charlie'', nxt = None\<rparr>,
         3 := \<lparr>name = ''Garfield'', nxt = None\<rparr>),
      fresh = 4,
      head = Some 0\<rparr>"

section \<open>Walks in the store\<close>

text \<open>
  A walk that ends at \<open>None\<close> is determined by its start and visits no node twice.
  On such a walk each loop of the program returns, with the result stated here.
\<close>

lemma segment_append:
  "segment h p (as @ bs) q \<longleftrightarrow> (\<exists>r. segment h p as r \<and> segment h r bs q)"
  by (induction as arbitrary: p) auto

lemma segment_update_outside:
  "u \<notin> set as \<Longrightarrow> segment (h(u := v)) p as q \<longleftrightarrow> segment h p as q"
  by (induction as arbitrary: p) auto

lemma segment_same_nxt:
  "\<forall>a\<in>set as. nxt (h' a) = nxt (h a) \<Longrightarrow> segment h' p as q \<longleftrightarrow> segment h p as q"
  by (induction as arbitrary: p) auto

lemma chain_unique:
  "segment h p as None \<Longrightarrow> segment h p bs None \<Longrightarrow> as = bs"
proof (induction as arbitrary: p bs)
  case Nil
  then show ?case by (cases bs) auto
next
  case (Cons a as)
  then show ?case by (cases bs) auto
qed

lemma chain_distinct:
  "segment h p as None \<Longrightarrow> distinct as"
proof (induction as arbitrary: p)
  case Nil
  show ?case by simp
next
  case (Cons a as)
  have rest: "segment h (nxt (h a)) as None" using Cons.prems by simp
  have "a \<notin> set as"
  proof
    assume "a \<in> set as"
    then obtain us vs where split: "as = us @ a # vs" by (auto simp: in_set_conv_decomp)
    with rest have "segment h (nxt (h a)) vs None" by (auto simp: segment_append)
    with rest have "as = vs" by (rule chain_unique)
    with split show False by simp
  qed
  with Cons.IH [OF rest] show ?case by simp
qed

lemma add_loop_last:
  "segment h (Some c) as None \<Longrightarrow> add_loop h c = Some (last as)"
proof (induction as arbitrary: c)
  case Nil
  then show ?case by simp
next
  case (Cons a as)
  show ?case
  proof (cases as)
    case Nil
    with Cons.prems show ?thesis by (subst add_loop.simps) simp
  next
    case (Cons b bs)
    with Cons.prems Cons.IH [of b] show ?thesis by (subst add_loop.simps) simp
  qed
qed

lemma display_loop_chain:
  "segment (heap s) p as None \<Longrightarrow>
   display_loop s p out = Some (out @ map (\<lambda>a. name (heap s a)) as, s)"
proof (induction as arbitrary: p out)
  case Nil
  then show ?case by (subst display_loop.simps) simp
next
  case (Cons a as)
  then show ?case by (subst display_loop.simps) simp
qed

lemma remove_loop_absent:
  "segment (heap s) cur as None \<Longrightarrow> x \<notin> set (map (\<lambda>a. name (heap s a)) as) \<Longrightarrow>
   remove_loop x s cur prev = Some (False, s)"
proof (induction as arbitrary: cur prev)
  case Nil
  then show ?case by (subst remove_loop.simps) simp
next
  case (Cons a as)
  then show ?case by (subst remove_loop.simps) auto
qed


lemma remove_loop_present:
  "segment (heap s) cur (r1 @ c # r2) q \<Longrightarrow> x \<notin> set (map (\<lambda>a. name (heap s a)) r1) \<Longrightarrow>
   name (heap s c) = x \<Longrightarrow>
   remove_loop x s cur prev =
     Some (True,
       case (if r1 = [] then prev else Some (last r1)) of
         Some p \<Rightarrow> s\<lparr>heap := (heap s)(p := (heap s p)\<lparr>nxt := nxt (heap s c)\<rparr>)\<rparr>
       | None \<Rightarrow> s\<lparr>head := nxt (heap s c)\<rparr>)"
proof (induction r1 arbitrary: cur prev)
  case Nil
  then show ?case by (subst remove_loop.simps) (simp split: option.splits)
next
  case (Cons a r1)
  have step: "remove_loop x s cur prev = remove_loop x s (nxt (heap s a)) (Some a)"
    using Cons.prems by (subst remove_loop.simps) auto
  have "segment (heap s) (nxt (heap s a)) (r1 @ c # r2) q" using Cons.prems by simp
  moreover have "x \<notin> set (map (\<lambda>a. name (heap s a)) r1)" using Cons.prems by simp
  ultimately show ?case
    using Cons.IH [of "nxt (heap s a)" "Some a"] Cons.prems(3) step by simp
qed

lemma names_split_first:
  "x \<in> set (names_at s as) \<Longrightarrow>
   \<exists>r1 c r2. as = r1 @ c # r2 \<and> x \<notin> set (names_at s r1) \<and> name (heap s c) = x"
proof (induction as)
  case Nil
  then show ?case by (simp add: names_at_def)
next
  case (Cons a as)
  show ?case
  proof (cases "name (heap s a) = x")
    case True
    then have "a # as = [] @ a # as \<and> x \<notin> set (names_at s []) \<and> name (heap s a) = x"
      by (simp add: names_at_def)
    then show ?thesis by blast
  next
    case False
    with Cons.prems have "x \<in> set (names_at s as)" by (auto simp: names_at_def)
    then obtain r1 c r2 where
      "as = r1 @ c # r2" "x \<notin> set (names_at s r1)" "name (heap s c) = x"
      using Cons.IH by blast
    with False have
      "a # as = (a # r1) @ c # r2 \<and> x \<notin> set (names_at s (a # r1)) \<and> name (heap s c) = x"
      by (auto simp: names_at_def)
    then show ?thesis by blast
  qed
qed

lemma segment_relink:
  assumes "segment h p (b @ [l]) r" and "l \<notin> set b"
  shows "segment (h(l := (h l)\<lparr>nxt := q\<rparr>)) p (b @ [l]) q"
proof -
  from assms(1) have "segment h p b (Some l)" by (auto simp: segment_append)
  with assms(2) have "segment (h(l := (h l)\<lparr>nxt := q\<rparr>)) p b (Some l)"
    by (simp add: segment_update_outside)
  then show ?thesis by (simp add: segment_append)
qed

lemma remove_present:
  assumes cells: "cells s (r1 @ c # r2)"
    and pre: "x \<notin> set (names_at s r1)"
    and hit: "name (heap s c) = x"
  shows "\<exists>s'. remove x s = Some (True, s') \<and> cells s' (r1 @ r2) \<and>
           names_at s' (r1 @ r2) = names_at s r1 @ names_at s r2 \<and>
           fresh s' = fresh s \<and>
           (\<forall>a. a \<notin> set (r1 @ c # r2) \<longrightarrow> heap s' a = heap s a)"
proof -
  let ?h = "heap s"
  have chain: "segment ?h (head s) (r1 @ c # r2) None"
    and alloc: "list_all (\<lambda>a. a < fresh s) (r1 @ c # r2)"
    using cells by (simp_all add: cells_def)
  have dist: "distinct (r1 @ c # r2)" using chain by (rule chain_distinct)
  have tail: "segment ?h (nxt (?h c)) r2 None" using chain by (auto simp: segment_append)
  show ?thesis
  proof (cases r1 rule: rev_cases)
    case Nil
    let ?s' = "s\<lparr>head := nxt (?h c)\<rparr>"
    have "remove x s = Some (True, ?s')"
      using remove_loop_present [OF chain, of x None] pre hit Nil
      by (simp add: remove_def names_at_def)
    moreover have "cells ?s' (r1 @ r2)" using tail alloc Nil by (simp add: cells_def)
    ultimately show ?thesis using Nil by (simp add: names_at_def)
  next
    case (snoc b l)
    let ?h' = "?h(l := (?h l)\<lparr>nxt := nxt (?h c)\<rparr>)"
    let ?s' = "s\<lparr>heap := ?h'\<rparr>"
    have "remove x s = Some (True, ?s')"
      using remove_loop_present [OF chain, of x None] pre hit snoc
      by (simp add: remove_def names_at_def)
    moreover have "cells ?s' (r1 @ r2)"
    proof -
      have "segment ?h (head s) (b @ [l]) (Some c)"
        using chain snoc by (auto simp: segment_append)
      moreover have "l \<notin> set b" using dist snoc by simp
      ultimately have "segment ?h' (head s) (b @ [l]) (nxt (?h c))" by (rule segment_relink)
      moreover have "l \<notin> set r2" using dist snoc by simp
      then have "segment ?h' (nxt (?h c)) r2 None"
        using tail by (simp add: segment_update_outside)
      ultimately have "segment ?h' (head s) (r1 @ r2) None"
        using snoc by (auto simp: segment_append)
      then show ?thesis using alloc by (simp add: cells_def)
    qed
    moreover have "names_at ?s' (r1 @ r2) = names_at s r1 @ names_at s r2"
      by (simp add: names_at_def)
    moreover have "\<forall>a. a \<notin> set (r1 @ c # r2) \<longrightarrow> heap ?s' a = heap s a"
      using snoc by simp
    ultimately show ?thesis by simp
  qed
qed

lemma add_appends:
  assumes cells: "cells s as"
  shows "\<exists>s'. add x s = Some s' \<and> cells s' (as @ [fresh s]) \<and>
           names_at s' (as @ [fresh s]) = names_at s as @ [x] \<and>
           fresh s' = Suc (fresh s) \<and>
           (\<forall>a. a \<notin> set as \<and> a \<noteq> fresh s \<longrightarrow> heap s' a = heap s a)"
proof -
  let ?n = "fresh s"
  let ?h1 = "(heap s)(?n := Node_init x)"
  have chain: "segment (heap s) (head s) as None"
    and alloc: "list_all (\<lambda>a. a < ?n) as"
    using cells by (simp_all add: cells_def)
  have new: "?n \<notin> set as" using alloc by (auto simp: list_all_iff)
  have chain1: "segment ?h1 (head s) as None"
    using chain new by (simp add: segment_update_outside)
  have alloc': "list_all (\<lambda>a. a < Suc ?n) (as @ [?n])"
    using alloc by (auto simp: list_all_iff)
  show ?thesis
  proof (cases as rule: rev_cases)
    case Nil
    with chain have "head s = None" by simp
    then have "add x s = Some (s\<lparr>heap := ?h1, fresh := Suc ?n, head := Some ?n\<rparr>)"
      by (simp add: add_def Let_def)
    then show ?thesis using Nil by (simp add: cells_def names_at_def Node_init_def)
  next
    case (snoc b l)
    let ?h2 = "?h1(l := (?h1 l)\<lparr>nxt := Some ?n\<rparr>)"
    let ?s' = "s\<lparr>heap := ?h2, fresh := Suc ?n\<rparr>"
    from chain snoc obtain c where hd: "head s = Some c" by (cases b) auto
    then have "add_loop ?h1 c = Some l" using add_loop_last [of ?h1 c as] chain1 snoc by simp
    then have run: "add x s = Some ?s'" using hd by (simp add: add_def Let_def)
    have ln: "l \<noteq> ?n" using new snoc by auto
    have "l \<notin> set b" using chain_distinct [OF chain] snoc by simp
    with chain1 snoc have "segment ?h2 (head s) (b @ [l]) (Some ?n)"
      using segment_relink [of ?h1 "head s" b l None "Some ?n"] by simp
    moreover have "segment ?h2 (Some ?n) [?n] None" using ln by (simp add: Node_init_def)
    ultimately have "segment ?h2 (head s) (as @ [?n]) None"
      using snoc by (auto simp: segment_append)
    then have "cells ?s' (as @ [?n])" using alloc' by (simp add: cells_def)
    moreover have "names_at ?s' (as @ [?n]) = names_at s as @ [x]"
      using new ln by (simp add: names_at_def Node_init_def)
    moreover have "\<forall>a. a \<notin> set as \<and> a \<noteq> ?n \<longrightarrow> heap ?s' a = heap s a"
      using snoc by simp
    ultimately show ?thesis using run by simp
  qed
qed

section \<open>Predecessors\<close>

text \<open>
  The successor of a node of a list is a node of the same list, so the nodes of a list,
  and of two lists that share no node, have at most one predecessor each.
\<close>

lemma chain_closed:
  "segment h p as None \<Longrightarrow> a \<in> set as \<Longrightarrow> nxt (h a) = Some c \<Longrightarrow> c \<in> set as"
proof (induction as arbitrary: p)
  case Nil
  then show ?case by simp
next
  case (Cons b bs)
  have rest: "segment h (nxt (h b)) bs None" using Cons.prems(1) by simp
  show ?case
  proof (cases "a = b")
    case True
    with rest Cons.prems(3) have "segment h (Some c) bs None" by simp
    then have "c \<in> set bs" by (cases bs) auto
    then show ?thesis by simp
  next
    case False
    with Cons.prems(2) have "a \<in> set bs" by simp
    from Cons.IH [OF rest this Cons.prems(3)] show ?thesis by simp
  qed
qed

lemma chain_single_predecessor:
  "segment h p as None \<Longrightarrow> single_predecessor h p as"
proof (induction as arbitrary: p)
  case Nil
  show ?case by (simp add: single_predecessor_def)
next
  case (Cons a as)
  have rest: "segment h (nxt (h a)) as None" and p: "p = Some a" using Cons.prems by simp_all
  have fresh_a: "a \<notin> set as" using chain_distinct [OF Cons.prems] by simp
  have ih: "single_predecessor h (nxt (h a)) as" using rest by (rule Cons.IH)
  have into: "\<And>b c. b \<in> set as \<Longrightarrow> nxt (h b) = Some c \<Longrightarrow> c \<in> set as"
    using chain_closed [OF rest] by blast
  have self: "nxt (h a) \<noteq> Some a"
  proof
    assume "nxt (h a) = Some a"
    with rest have "segment h (Some a) as None" by simp
    then have "a \<in> set as" by (cases as) auto
    with fresh_a show False by simp
  qed
  have others: "\<And>b. b \<in> set as \<Longrightarrow> nxt (h b) \<noteq> Some a"
    using into fresh_a by blast
  have tail_head: "\<And>b. b \<in> set as \<Longrightarrow> nxt (h b) = None \<or> nxt (h b) \<noteq> nxt (h a)"
    using ih by (simp add: single_predecessor_def)
  have tail_inj: "\<And>b c. b \<in> set as \<Longrightarrow> c \<in> set as \<Longrightarrow> nxt (h b) = nxt (h c) \<Longrightarrow>
      nxt (h b) = None \<or> b = c"
    using ih by (simp add: single_predecessor_def)
  show ?case
    unfolding single_predecessor_def p
  proof (intro conjI ballI impI)
    fix b c
    assume "b \<in> set (a # as)" "c \<in> set (a # as)" "nxt (h b) = nxt (h c)"
    then show "nxt (h b) = None \<or> b = c"
      using tail_head tail_inj by (metis set_ConsD)
  next
    fix b
    assume "b \<in> set (a # as)"
    then show "nxt (h b) = None \<or> nxt (h b) \<noteq> Some a"
      using self others by (metis set_ConsD)
  qed
qed

lemma two_chains_single_predecessor:
  assumes "segment h p as None" and "segment h q bs None" and "set as \<inter> set bs = {}"
  shows "single_predecessor h p (as @ bs)"
proof -
  have a: "single_predecessor h p as" using assms(1) by (rule chain_single_predecessor)
  have b: "single_predecessor h q bs" using assms(2) by (rule chain_single_predecessor)
  have into_as: "\<And>x c. x \<in> set as \<Longrightarrow> nxt (h x) = Some c \<Longrightarrow> c \<in> set as"
    using chain_closed [OF assms(1)] by blast
  have into_bs: "\<And>x c. x \<in> set bs \<Longrightarrow> nxt (h x) = Some c \<Longrightarrow> c \<in> set bs"
    using chain_closed [OF assms(2)] by blast
  have cross: "\<And>x y. x \<in> set as \<Longrightarrow> y \<in> set bs \<Longrightarrow> nxt (h x) = nxt (h y) \<Longrightarrow>
      nxt (h x) = None"
  proof (rule ccontr)
    fix x y
    assume xy: "x \<in> set as" "y \<in> set bs" "nxt (h x) = nxt (h y)" "nxt (h x) \<noteq> None"
    then obtain c where c: "nxt (h x) = Some c" by auto
    with xy into_as [of x c] into_bs [of y c] have "c \<in> set as \<inter> set bs" by simp
    with assms(3) show False by simp
  qed
  have start: "\<And>y. y \<in> set bs \<Longrightarrow> nxt (h y) = None \<or> nxt (h y) \<noteq> p"
  proof (rule ccontr)
    fix y
    assume y: "y \<in> set bs" "\<not> (nxt (h y) = None \<or> nxt (h y) \<noteq> p)"
    then obtain c where c: "nxt (h y) = Some c" "p = Some c" by auto
    with assms(1) have "c \<in> set as" by (cases as) auto
    moreover from y(1) c(1) have "c \<in> set bs" by (rule into_bs)
    ultimately show False using assms(3) by auto
  qed
  show ?thesis
    unfolding single_predecessor_def
  proof (intro conjI ballI impI)
    fix x y
    assume "x \<in> set (as @ bs)" "y \<in> set (as @ bs)" "nxt (h x) = nxt (h y)"
    then show "nxt (h x) = None \<or> x = y"
      using a b cross [of x y] cross [of y x]
      by (auto simp: single_predecessor_def)
  next
    fix x
    assume "x \<in> set (as @ bs)"
    then show "nxt (h x) = None \<or> nxt (h x) \<noteq> p"
      using a start [of x] by (auto simp: single_predecessor_def)
  qed
qed

section \<open>The methods on a well-formed list\<close>

lemma display_cells:
  "cells s as \<Longrightarrow>
   display s = Some (if as = [] then [''The list is empty.''] else names_at s as, s)"
proof (cases as)
  case Nil
  assume "cells s as"
  with Nil have "head s = None" by (simp add: cells_def)
  with Nil show ?thesis by (simp add: display_def)
next
  case (Cons a bs)
  assume "cells s as"
  then have chain: "segment (heap s) (head s) as None" by (simp add: cells_def)
  with Cons have "head s = Some a" by simp
  then have "display s = display_loop s (head s) []" by (simp add: display_def)
  also have "\<dots> = Some ([] @ map (\<lambda>a. name (heap s a)) as, s)"
    using chain by (rule display_loop_chain)
  finally show ?thesis using Cons by (simp add: names_at_def)
qed

lemma display_loop_keeps_state:
  assumes "display_loop s p out = Some r"
  shows "snd r = s"
proof (rule display_loop.raw_induct [where P = "\<lambda>s p out r. snd r = s", OF _ assms])
  fix loop s p out r
  assume ih: "\<And>s p out r. loop s p out = Some r \<Longrightarrow> snd r = s"
    and step: "(case p of None \<Rightarrow> Some (out, s)
                | Some c \<Rightarrow> loop s (nxt (heap s c)) (out @ [name (heap s c)])) = Some r"
  show "snd r = s"
  proof (cases p)
    case None
    with step show ?thesis by auto
  next
    case (Some c)
    with step show ?thesis by (auto dest: ih)
  qed
qed

lemma display_keeps_state: "display s = Some (out, s') \<Longrightarrow> s' = s"
  by (auto simp: display_def Let_def split: option.splits dest: display_loop_keeps_state)

lemma example_list_built:
  "adds [''Alice'', ''Bob'', ''Charlie'', ''Garfield''] LinkedList_init = Some example_list"
  by (simp add: add_def LinkedList_init_def Node_init_def example_list_def add_loop.simps
      fun_eq_iff)

lemma remove_absent:
  "cells s as \<Longrightarrow> x \<notin> set (names_at s as) \<Longrightarrow> remove x s = Some (False, s)"
  unfolding remove_def cells_def names_at_def by (auto intro: remove_loop_absent)

lemma remove_first:
  assumes "cells s as" and "x \<in> set (names_at s as)"
  shows "\<exists>s' pre c post. as = pre @ c # post \<and> x \<notin> set (names_at s pre) \<and>
           name (heap s c) = x \<and> remove x s = Some (True, s') \<and> cells s' (pre @ post) \<and>
           names_at s' (pre @ post) = names_at s pre @ names_at s post \<and>
           fresh s' = fresh s \<and> (\<forall>a. a \<notin> set as \<longrightarrow> heap s' a = heap s a)"
proof -
  from assms(2) obtain pre c post where
    split: "as = pre @ c # post" "x \<notin> set (names_at s pre)" "name (heap s c) = x"
    using names_split_first by blast
  from assms(1) split(1) have "cells s (pre @ c # post)" by simp
  from remove_present [OF this split(2) split(3)] split show ?thesis by blast
qed

lemma filter_absent: "x \<notin> set xs \<Longrightarrow> filter (\<lambda>n. n \<noteq> x) xs = xs"
  by (induction xs) auto

lemma names_at_append: "names_at s (as @ bs) = names_at s as @ names_at s bs"
  by (simp add: names_at_def)

lemma names_at_Cons: "names_at s (a # as) = name (heap s a) # names_at s as"
  by (simp add: names_at_def)

lemma remove_first_names:
  assumes "cells s as" and "x \<in> set (names_at s as)"
  shows "\<exists>s' as'. remove x s = Some (True, s') \<and> cells s' as' \<and>
           names_at s' as' = remove1 x (names_at s as) \<and> length as' + 1 = length as"
proof -
  from remove_first [OF assms] obtain s' pre c post where
    r: "as = pre @ c # post" "x \<notin> set (names_at s pre)" "name (heap s c) = x"
      "remove x s = Some (True, s')" "cells s' (pre @ post)"
      "names_at s' (pre @ post) = names_at s pre @ names_at s post"
    by blast
  have "remove1 x (names_at s as) = names_at s pre @ names_at s post"
    using r(1,2,3) by (simp add: names_at_append names_at_Cons remove1_append)
  with r show ?thesis by auto
qed

lemma adds_appends:
  "cells s as \<Longrightarrow>
   \<exists>s' bs. adds ns s = Some s' \<and> cells s' (as @ bs) \<and>
     names_at s' (as @ bs) = names_at s as @ ns"
proof (induction ns arbitrary: s as)
  case Nil
  then have "adds [] s = Some s \<and> cells s (as @ []) \<and> names_at s (as @ []) = names_at s as @ []"
    by simp
  then show ?case by blast
next
  case (Cons n ns)
  from add_appends [OF Cons.prems, of n] obtain s1 where
    s1: "add n s = Some s1" "cells s1 (as @ [fresh s])"
      "names_at s1 (as @ [fresh s]) = names_at s as @ [n]"
    by blast
  from Cons.IH [OF s1(2)] obtain s' bs where
    s': "adds ns s1 = Some s'" "cells s' ((as @ [fresh s]) @ bs)"
      "names_at s' ((as @ [fresh s]) @ bs) = names_at s1 (as @ [fresh s]) @ ns"
    by blast
  have "adds (n # ns) s = Some s' \<and> cells s' (as @ (fresh s # bs)) \<and>
    names_at s' (as @ (fresh s # bs)) = names_at s as @ n # ns"
    using s1 s' by simp
  then show ?case by blast
qed

lemma cells_init: "cells LinkedList_init []"
  by (simp add: cells_def LinkedList_init_def)

section \<open>Sequences of calls, and a second list in the store\<close>

text \<open>
  A call writes only nodes of its own list and the node it allocates. A second list
  \<open>bs\<close> in the same store, starting at \<open>q\<close> and sharing no node with the first,
  is therefore left as it is.
\<close>

lemma segment_same_nodes:
  "\<forall>a\<in>set as. h' a = h a \<Longrightarrow> segment h' p as q \<longleftrightarrow> segment h p as q"
  by (rule segment_same_nxt) simp

lemma exec_preserves:
  assumes cells: "cells s as" and other: "segment (heap s) q bs None"
    and alloc: "list_all (\<lambda>b. b < fresh s) bs" and apart: "set as \<inter> set bs = {}"
  shows "\<exists>s' as'. exec c s = Some s' \<and> cells s' as' \<and> segment (heap s') q bs None \<and>
           list_all (\<lambda>b. b < fresh s') bs \<and> set as' \<inter> set bs = {} \<and>
           (\<forall>b\<in>set bs. heap s' b = heap s b)"
proof (cases c)
  case (Add n)
  from add_appends [OF cells, of n] obtain s' where
    s': "add n s = Some s'" "cells s' (as @ [fresh s])" "fresh s' = Suc (fresh s)"
      "\<forall>a. a \<notin> set as \<and> a \<noteq> fresh s \<longrightarrow> heap s' a = heap s a"
    by blast
  have new: "fresh s \<notin> set bs" using alloc by (auto simp: list_all_iff)
  have same: "\<forall>b\<in>set bs. heap s' b = heap s b" using s'(4) new apart by auto
  then have "segment (heap s') q bs None"
    using other segment_same_nodes [of bs "heap s'" "heap s" q None] by simp
  moreover have "list_all (\<lambda>b. b < fresh s') bs" using alloc s'(3) by (auto simp: list_all_iff)
  moreover have "set (as @ [fresh s]) \<inter> set bs = {}" using apart new by simp
  moreover have "exec c s = Some s'" using Add s'(1) by simp
  ultimately show ?thesis using s'(2) same by blast
next
  case (Remove n)
  show ?thesis
  proof (cases "n \<in> set (names_at s as)")
    case True
    from remove_first [OF cells True] obtain s' pre d post where
      s': "as = pre @ d # post" "remove n s = Some (True, s')" "cells s' (pre @ post)"
        "fresh s' = fresh s" "\<forall>a. a \<notin> set as \<longrightarrow> heap s' a = heap s a"
      by blast
    have same: "\<forall>b\<in>set bs. heap s' b = heap s b" using s'(5) apart by auto
    then have "segment (heap s') q bs None"
      using other segment_same_nodes [of bs "heap s'" "heap s" q None] by simp
    moreover have "list_all (\<lambda>b. b < fresh s') bs" using alloc s'(4) by simp
    moreover have "set (pre @ post) \<inter> set bs = {}" using apart s'(1) by auto
    moreover have "exec c s = Some s'" using Remove s'(2) by simp
    ultimately show ?thesis using s'(3) same by blast
  next
    case False
    with cells have "remove n s = Some (False, s)" by (rule remove_absent)
    with Remove have "exec c s = Some s" by simp
    with cells other alloc apart show ?thesis by blast
  qed
next
  case Display
  from display_cells [OF cells] obtain out where "display s = Some (out, s)" by blast
  with Display have "exec c s = Some s" by simp
  with cells other alloc apart show ?thesis by blast
qed

lemma run_preserves:
  assumes "cells s as" and "segment (heap s) q bs None"
    and "list_all (\<lambda>b. b < fresh s) bs" and "set as \<inter> set bs = {}"
  shows "\<exists>s' as'. run cs s = Some s' \<and> cells s' as' \<and> segment (heap s') q bs None \<and>
           list_all (\<lambda>b. b < fresh s') bs \<and> set as' \<inter> set bs = {} \<and>
           (\<forall>b\<in>set bs. heap s' b = heap s b)"
  using assms
proof (induction cs arbitrary: s as)
  case Nil
  have "run [] s = Some s" by simp
  with Nil show ?case by blast
next
  case (Cons c cs)
  from exec_preserves [OF Cons.prems, of c] obtain s1 as1 where
    s1: "exec c s = Some s1" "cells s1 as1" "segment (heap s1) q bs None"
      "list_all (\<lambda>b. b < fresh s1) bs" "set as1 \<inter> set bs = {}"
      "\<forall>b\<in>set bs. heap s1 b = heap s b"
    by blast
  from Cons.IH [OF s1(2,3,4,5)] obtain s' as' where
    s': "run cs s1 = Some s'" "cells s' as'" "segment (heap s') q bs None"
      "list_all (\<lambda>b. b < fresh s') bs" "set as' \<inter> set bs = {}"
      "\<forall>b\<in>set bs. heap s' b = heap s1 b"
    by blast
  have "run (c # cs) s = Some s'" using s1(1) s'(1) by simp
  moreover have "\<forall>b\<in>set bs. heap s' b = heap s b" using s1(6) s'(6) by simp
  ultimately show ?case using s'(2,3,4,5) by blast
qed

section \<open>Properties of the list\<close>

text \<open>
  C1. After any sequence \<open>ns\<close> of \<^verbatim>\<open>add\<close> calls on the empty list, every call
  has returned, the list holds exactly the names \<open>ns\<close> in the order they were added,
  head to tail, and \<^verbatim>\<open>display\<close> prints exactly these names in this order (with no
  name added, it prints its line for the empty list in place of names).
\<close>

theorem adds_then_display_in_order:
  "\<exists>s as. adds ns LinkedList_init = Some s \<and> cells s as \<and> names_at s as = ns \<and>
     display s = Some (if ns = [] then [''The list is empty.''] else ns, s)"
proof -
  from adds_appends [OF cells_init, of ns] obtain s bs where
    s: "adds ns LinkedList_init = Some s" "cells s bs" "names_at s bs = ns"
    by (auto simp: names_at_def)
  have "bs = [] \<longleftrightarrow> ns = []" using s(3) by (auto simp: names_at_def)
  with display_cells [OF s(2)] s(3)
  have "display s = Some (if ns = [] then [''The list is empty.''] else ns, s)" by simp
  with s show ?thesis by blast
qed

theorem adds_then_display_in_order_witness:
  "\<exists>s. adds [''Alice'', ''Bob'', ''Charlie'', ''Garfield''] LinkedList_init = Some s \<and>
     display s = Some ([''Alice'', ''Bob'', ''Charlie'', ''Garfield''], s)"
  using adds_then_display_in_order [of "[''Alice'', ''Bob'', ''Charlie'', ''Garfield'']"]
  by auto

text \<open>
  C2. If the name \<open>x\<close> does not occur in the list, \<^verbatim>\<open>remove(x)\<close> returns false and
  the state after the call is the state before it: the head reference, the store and
  hence the sequence of names are unchanged.
\<close>

theorem remove_absent_is_noop:
  assumes "cells s as" and "x \<notin> set (names_at s as)"
  shows "remove x s = Some (False, s)"
  using assms by (rule remove_absent)

theorem remove_absent_is_noop_witness:
  "cells example_list [0, 1, 2, 3] \<and>
   ''Odie'' \<notin> set (names_at example_list [0, 1, 2, 3]) \<and>
   remove ''Odie'' example_list = Some (False, example_list)"
  using remove_absent_is_noop [of example_list "[0, 1, 2, 3]" "''Odie''"]
  by (simp add: cells_def names_at_def example_list_def)

text \<open>
  C3. If the name \<open>x\<close> occurs exactly once in the list, \<^verbatim>\<open>remove(x)\<close> returns true;
  the list then holds the former names without \<open>x\<close>, the others in their former
  order, and a following \<^verbatim>\<open>display\<close> prints them (its line for the empty list when
  none is left).
\<close>

theorem remove_single_occurrence:
  assumes "cells s as" and "count_list (names_at s as) x = 1"
  shows "\<exists>s' as'. remove x s = Some (True, s') \<and> cells s' as' \<and>
           names_at s' as' = filter (\<lambda>n. n \<noteq> x) (names_at s as) \<and>
           display s' =
             Some (if as' = [] then [''The list is empty.''] else names_at s' as', s')"
proof -
  have "x \<in> set (names_at s as)" using assms(2) by (metis count_list_0_iff zero_neq_one)
  from remove_first [OF assms(1) this] obtain s' pre c post where
    r: "as = pre @ c # post" "x \<notin> set (names_at s pre)" "name (heap s c) = x"
      "remove x s = Some (True, s')" "cells s' (pre @ post)"
      "names_at s' (pre @ post) = names_at s pre @ names_at s post"
    by blast
  have "count_list (names_at s post) x = 0"
    using assms(2) r(1,2,3) by (simp add: names_at_append names_at_Cons)
  then have "x \<notin> set (names_at s post)" by (simp add: count_list_0_iff)
  with r(1,2,3) have "filter (\<lambda>n. n \<noteq> x) (names_at s as) = names_at s pre @ names_at s post"
    by (simp add: names_at_append names_at_Cons filter_absent)
  with r display_cells [OF r(5)] show ?thesis by metis
qed

theorem remove_single_occurrence_witness:
  "cells example_list [0, 1, 2, 3] \<and>
   count_list (names_at example_list [0, 1, 2, 3]) ''Bob'' = 1 \<and>
   (\<exists>s'. remove ''Bob'' example_list = Some (True, s') \<and>
      display s' = Some ([''Alice'', ''Charlie'', ''Garfield''], s'))"
proof -
  have c: "cells example_list [0, 1, 2, 3]"
    by (simp add: cells_def example_list_def)
  have n: "names_at example_list [0, 1, 2, 3] = [''Alice'', ''Bob'', ''Charlie'', ''Garfield'']"
    by (simp add: names_at_def example_list_def)
  have k: "count_list (names_at example_list [0, 1, 2, 3]) ''Bob'' = 1"
    unfolding n by simp
  from remove_single_occurrence [OF c k] obtain s' as' where
    r: "remove ''Bob'' example_list = Some (True, s')"
      "names_at s' as' = [''Alice'', ''Charlie'', ''Garfield'']"
      "display s' = Some (if as' = [] then [''The list is empty.''] else names_at s' as', s')"
    unfolding n by auto
  from r(2) have "as' \<noteq> []" by (auto simp: names_at_def)
  with r c k show ?thesis by simp
qed

text \<open>
  C4. If the name \<open>x\<close> occurs more than once, so that the names are
  \<open>pre @ x # mid @ x # post\<close> with no \<open>x\<close> in \<open>pre\<close> and none in \<open>mid\<close>, then
  \<^verbatim>\<open>remove(x)\<close> returns true and removes only the first occurrence, leaving
  \<open>pre @ mid @ x # post\<close>; a second \<^verbatim>\<open>remove(x)\<close> returns true and removes the next
  one, leaving \<open>pre @ mid @ post\<close>.
\<close>

theorem remove_duplicates_earliest_first:
  assumes "cells s as" and "1 < count_list (names_at s as) x"
  shows "\<exists>pre mid post s' as' s'' as''.
           names_at s as = pre @ x # mid @ x # post \<and> x \<notin> set pre \<and> x \<notin> set mid \<and>
           remove x s = Some (True, s') \<and> cells s' as' \<and>
           names_at s' as' = pre @ mid @ x # post \<and>
           remove x s' = Some (True, s'') \<and> cells s'' as'' \<and>
           names_at s'' as'' = pre @ mid @ post"
proof -
  let ?ns = "names_at s as"
  have "x \<in> set ?ns" using assms(2) by (metis count_list_0_iff not_less_zero)
  then obtain pre rest where p: "?ns = pre @ x # rest" "x \<notin> set pre"
    by (auto dest: split_list_first)
  then have "count_list pre x = 0" by (simp add: count_list_0_iff)
  with assms(2) p(1) have "count_list rest x \<noteq> 0" by simp
  then have "x \<in> set rest" by (simp add: count_list_0_iff)
  then obtain mid post where m: "rest = mid @ x # post" "x \<notin> set mid"
    by (auto dest: split_list_first)
  from remove_first_names [OF assms(1) \<open>x \<in> set ?ns\<close>] obtain s' as' where
    r1: "remove x s = Some (True, s')" "cells s' as'" "names_at s' as' = remove1 x ?ns"
    by blast
  have n1: "names_at s' as' = pre @ mid @ x # post"
    using r1(3) p m by (simp add: remove1_append)
  then have "x \<in> set (names_at s' as')" by simp
  from remove_first_names [OF r1(2) this] obtain s'' as'' where
    r2: "remove x s' = Some (True, s'')" "cells s'' as''"
      "names_at s'' as'' = remove1 x (names_at s' as')"
    by blast
  have n2: "names_at s'' as'' = pre @ mid @ post"
    using r2(3) n1 p(2) m(2) by (simp add: remove1_append)
  from p m have "?ns = pre @ x # mid @ x # post" by simp
  with p(2) m(2) r1(1,2) n1 r2(1,2) n2 show ?thesis by blast
qed

theorem remove_duplicates_earliest_first_witness:
  "cells example_duplicates [0, 1, 2, 3] \<and>
   1 < count_list (names_at example_duplicates [0, 1, 2, 3]) ''Bob'' \<and>
   (\<exists>s' as' s'' as''.
      remove ''Bob'' example_duplicates = Some (True, s') \<and>
      names_at s' as' = [''Alice'', ''Charlie'', ''Bob''] \<and>
      remove ''Bob'' s' = Some (True, s'') \<and>
      names_at s'' as'' = [''Alice'', ''Charlie''])"
proof -
  have c: "cells example_duplicates [0, 1, 2, 3]"
    by (simp add: cells_def example_duplicates_def)
  have n: "names_at example_duplicates [0, 1, 2, 3] = [''Alice'', ''Bob'', ''Charlie'', ''Bob'']"
    by (simp add: names_at_def example_duplicates_def)
  have k: "1 < count_list (names_at example_duplicates [0, 1, 2, 3]) ''Bob''"
    unfolding n by simp
  from remove_duplicates_earliest_first [OF c k] obtain pre mid post s' as' s'' as'' where
    r: "[''Alice'', ''Bob'', ''Charlie'', ''Bob''] = pre @ ''Bob'' # mid @ ''Bob'' # post"
      "''Bob'' \<notin> set pre" "''Bob'' \<notin> set mid"
      "remove ''Bob'' example_duplicates = Some (True, s')"
      "names_at s' as' = pre @ mid @ ''Bob'' # post"
      "remove ''Bob'' s' = Some (True, s'')"
      "names_at s'' as'' = pre @ mid @ post"
    unfolding n by blast
  from r(1,2) have pre: "pre = [''Alice'']"
    by (cases pre) (auto simp: Cons_eq_append_conv)
  with r(1,3) have mid: "mid = [''Charlie''] \<and> post = []"
    by (cases mid) (auto simp: Cons_eq_append_conv)
  with pre r c k show ?thesis by auto
qed

text \<open>
  C5. On an empty list (the head is \<open>None\<close>), \<^verbatim>\<open>remove(x)\<close> returns false for every
  name \<open>x\<close>, and the list is empty afterwards: the state is unchanged.
\<close>

theorem remove_on_empty_list:
  assumes "head s = None"
  shows "\<exists>s'. remove x s = Some (False, s') \<and> s' = s \<and> head s' = None"
  using assms by (subst remove_def, subst remove_loop.simps) simp

theorem remove_on_empty_list_witness:
  "head LinkedList_init = None \<and>
   (\<exists>s'. remove ''Bob'' LinkedList_init = Some (False, s') \<and> s' = LinkedList_init \<and>
      head s' = None)"
  using remove_on_empty_list [of LinkedList_init "''Bob''"]
  by (simp add: LinkedList_init_def)

text \<open>
  C6. If the first node of the list holds the name \<open>x\<close>, \<^verbatim>\<open>remove(x)\<close> returns true
  and sets the head reference to the successor of that node; the store is not written,
  and the list holds the remaining nodes. If the node was the only one, the head is
  \<open>None\<close> afterwards and \<^verbatim>\<open>display\<close> prints its line for the empty list.
\<close>

theorem remove_head_updates_head:
  assumes "cells s (a # as)" and "name (heap s a) = x"
  shows "\<exists>s'. remove x s = Some (True, s') \<and> head s' = nxt (heap s a) \<and>
           heap s' = heap s \<and> cells s' as \<and> names_at s' as = names_at s as \<and>
           (as = [] \<longrightarrow> head s' = None \<and>
              display s' = Some ([''The list is empty.''], s'))"
proof -
  let ?s' = "s\<lparr>head := nxt (heap s a)\<rparr>"
  from assms(1) have hd: "head s = Some a" and tl: "segment (heap s) (nxt (heap s a)) as None"
    and alloc: "list_all (\<lambda>a. a < fresh s) as"
    by (simp_all add: cells_def)
  have r: "remove x s = Some (True, ?s')"
    using hd assms(2) by (subst remove_def, subst remove_loop.simps) simp
  have c: "cells ?s' as" using tl alloc by (simp add: cells_def)
  have "as = [] \<longrightarrow> head ?s' = None \<and> display ?s' = Some ([''The list is empty.''], ?s')"
    using display_cells [OF c] tl by auto
  with r c show ?thesis by (auto simp: names_at_def)
qed

theorem remove_head_updates_head_witness:
  "cells example_list [0, 1, 2, 3] \<and> name (heap example_list 0) = ''Alice'' \<and>
   (\<exists>s'. remove ''Alice'' example_list = Some (True, s') \<and> head s' = Some 1 \<and>
      names_at s' [1, 2, 3] = [''Bob'', ''Charlie'', ''Garfield'']) \<and>
   (\<exists>s1 s2. add ''Odie'' LinkedList_init = Some s1 \<and> cells s1 [0] \<and>
      remove ''Odie'' s1 = Some (True, s2) \<and> head s2 = None \<and>
      display s2 = Some ([''The list is empty.''], s2))"
proof -
  have c: "cells example_list [0, 1, 2, 3]"
    by (simp add: cells_def example_list_def)
  have a: "name (heap example_list 0) = ''Alice''" by (simp add: example_list_def)
  have first: "\<exists>s'. remove ''Alice'' example_list = Some (True, s') \<and> head s' = Some 1 \<and>
      names_at s' [1, 2, 3] = [''Bob'', ''Charlie'', ''Garfield'']"
    using remove_head_updates_head [OF c a] by (auto simp: example_list_def names_at_def)
  let ?s1 = "\<lparr>heap = (\<lambda>_. Node_init [])(0 := Node_init ''Odie''), fresh = 1, head = Some 0\<rparr>"
  have s1: "add ''Odie'' LinkedList_init = Some ?s1"
    by (simp add: add_def LinkedList_init_def)
  have c1: "cells ?s1 [0]" by (simp add: cells_def Node_init_def)
  have "\<exists>s2. remove ''Odie'' ?s1 = Some (True, s2) \<and> head s2 = None \<and>
      display s2 = Some ([''The list is empty.''], s2)"
    using remove_head_updates_head [OF c1, of "''Odie''"] by (auto simp: Node_init_def)
  with s1 c1 first c a show ?thesis by blast
qed

text \<open>
  C7. \<^verbatim>\<open>display\<close> on a list with nodes \<open>as\<close> returns, prints the names head to tail
  when there are any and the line \<^verbatim>\<open>The list is empty.\<close> when there are none, and
  leaves the state as it was. Whenever \<^verbatim>\<open>display\<close> returns at all, the state and the
  head reference are the ones before the call.
\<close>

theorem display_does_not_mutate:
  "(cells s as \<longrightarrow>
      display s = Some (if as = [] then [''The list is empty.''] else names_at s as, s)) \<and>
   (display s = Some (out, s') \<longrightarrow> s' = s \<and> head s' = head s)"
  using display_keeps_state [of s out s'] display_cells [of s as] by blast

theorem display_does_not_mutate_witness:
  "cells example_list [0, 1, 2, 3] \<and>
   display example_list =
     Some ([''Alice'', ''Bob'', ''Charlie'', ''Garfield''], example_list) \<and>
   cells LinkedList_init [] \<and>
   display LinkedList_init = Some ([''The list is empty.''], LinkedList_init)"
  using display_does_not_mutate [of example_list "[0, 1, 2, 3]"]
    display_does_not_mutate [of LinkedList_init "[]"]
  by (simp add: cells_def names_at_def example_list_def LinkedList_init_def)

text \<open>
  C8. \<^verbatim>\<open>add(x)\<close> returns for every text \<open>x\<close>, the empty string and names already
  in the list included. Afterwards the nodes of the list are the former ones, in their
  former order and with their former names, followed by one new node that holds \<open>x\<close>.
  No node outside the list is written, except the new one.
\<close>

theorem add_appends_one_node:
  assumes "cells s as"
  shows "\<exists>s'. add x s = Some s' \<and> cells s' (as @ [fresh s]) \<and>
           names_at s' (as @ [fresh s]) = names_at s as @ [x] \<and>
           names_at s' as = names_at s as \<and>
           (\<forall>a. a \<notin> set as \<and> a \<noteq> fresh s \<longrightarrow> heap s' a = heap s a)"
proof -
  from add_appends [OF assms, of x] obtain s' where
    s': "add x s = Some s'" "cells s' (as @ [fresh s])"
      "names_at s' (as @ [fresh s]) = names_at s as @ [x]"
      "\<forall>a. a \<notin> set as \<and> a \<noteq> fresh s \<longrightarrow> heap s' a = heap s a"
    by blast
  from s'(3) have "names_at s' as = names_at s as" by (simp add: names_at_def)
  with s' show ?thesis by blast
qed

theorem add_appends_one_node_witness:
  "cells example_list [0, 1, 2, 3] \<and>
   (\<exists>s'. add ''Bob'' example_list = Some s' \<and> cells s' [0, 1, 2, 3, 4] \<and>
      names_at s' [0, 1, 2, 3, 4] = [''Alice'', ''Bob'', ''Charlie'', ''Garfield'', ''Bob'']) \<and>
   (\<exists>s'. add [] example_list = Some s' \<and> cells s' [0, 1, 2, 3, 4] \<and>
      names_at s' [0, 1, 2, 3, 4] = [''Alice'', ''Bob'', ''Charlie'', ''Garfield'', []])"
proof -
  have c: "cells example_list [0, 1, 2, 3]"
    by (simp add: cells_def example_list_def)
  have f: "[0, 1, 2, 3] @ [fresh example_list] = [0, 1, 2, 3, 4]"
    by (simp add: example_list_def)
  have n: "names_at example_list [0, 1, 2, 3] = [''Alice'', ''Bob'', ''Charlie'', ''Garfield'']"
    by (simp add: names_at_def example_list_def)
  have "\<exists>s'. add x example_list = Some s' \<and> cells s' [0, 1, 2, 3, 4] \<and>
      names_at s' [0, 1, 2, 3, 4] = [''Alice'', ''Bob'', ''Charlie'', ''Garfield'', x]" for x
    using add_appends_one_node [OF c, of x] unfolding f n by auto
  with c show ?thesis by simp
qed

text \<open>
  C9. After every sequence of calls of \<^verbatim>\<open>add\<close>, \<^verbatim>\<open>remove\<close> and \<^verbatim>\<open>display\<close> on
  the empty list, every call has returned and the list is well formed: the walk along
  \<open>nxt\<close> from the head visits finitely many nodes \<open>as\<close> and ends at \<open>None\<close>, no
  node is visited twice, and each of these nodes is the successor of at most one of them
  and, if the head refers to it, of none. The calls also keep the list apart from any
  other list \<open>bs\<close> in the store (starting at a reference \<open>q\<close>): that list is not
  written, shares no node with this one, and among the nodes of both lists each is
  referenced at most once. A node that \<^verbatim>\<open>remove\<close> has unlinked is referenced by nothing
  and belongs to no list.
\<close>

theorem list_structure_invariant:
  "(\<exists>s as. run calls LinkedList_init = Some s \<and> cells s as \<and> distinct as \<and>
      single_predecessor (heap s) (head s) as) \<and>
   (cells t ts \<and> segment (heap t) q bs None \<and> list_all (\<lambda>b. b < fresh t) bs \<and>
    set ts \<inter> set bs = {} \<longrightarrow>
      (\<exists>s' as'. run calls t = Some s' \<and> cells s' as' \<and> distinct as' \<and>
         segment (heap s') q bs None \<and> (\<forall>b\<in>set bs. heap s' b = heap t b) \<and>
         set as' \<inter> set bs = {} \<and>
         single_predecessor (heap s') (head s') (as' @ bs) \<and>
         single_predecessor (heap s') q (bs @ as')))"
proof (intro conjI impI)
  have "segment (heap LinkedList_init) None [] None" "list_all (\<lambda>b. b < fresh LinkedList_init) []"
    "set [] \<inter> set [] = ({} :: addr set)"
    by simp_all
  from run_preserves [OF cells_init this, of calls] obtain s as where
    s: "run calls LinkedList_init = Some s" "cells s as"
    by blast
  from s(2) have chain: "segment (heap s) (head s) as None" by (simp add: cells_def)
  from chain have "distinct as" by (rule chain_distinct)
  moreover from chain have "single_predecessor (heap s) (head s) as"
    by (rule chain_single_predecessor)
  ultimately show "\<exists>s as. run calls LinkedList_init = Some s \<and> cells s as \<and> distinct as \<and>
      single_predecessor (heap s) (head s) as"
    using s by blast
next
  assume "cells t ts \<and> segment (heap t) q bs None \<and> list_all (\<lambda>b. b < fresh t) bs \<and>
    set ts \<inter> set bs = {}"
  then have pre: "cells t ts" "segment (heap t) q bs None"
    "list_all (\<lambda>b. b < fresh t) bs" "set ts \<inter> set bs = {}"
    by simp_all
  from run_preserves [OF pre, of calls] obtain s' as' where
    s': "run calls t = Some s'" "cells s' as'" "segment (heap s') q bs None"
      "set as' \<inter> set bs = {}" "\<forall>b\<in>set bs. heap s' b = heap t b"
    by blast
  from s'(2) have chain: "segment (heap s') (head s') as' None" by (simp add: cells_def)
  from chain have "distinct as'" by (rule chain_distinct)
  moreover from chain s'(3,4) have "single_predecessor (heap s') (head s') (as' @ bs)"
    by (rule two_chains_single_predecessor)
  moreover from s'(4) have "set bs \<inter> set as' = {}" by auto
  with s'(3) chain have "single_predecessor (heap s') q (bs @ as')"
    by (rule two_chains_single_predecessor)
  ultimately show "\<exists>s' as'. run calls t = Some s' \<and> cells s' as' \<and> distinct as' \<and>
         segment (heap s') q bs None \<and> (\<forall>b\<in>set bs. heap s' b = heap t b) \<and>
         set as' \<inter> set bs = {} \<and>
         single_predecessor (heap s') (head s') (as' @ bs) \<and>
         single_predecessor (heap s') q (bs @ as')"
    using s' by blast
qed

theorem list_structure_invariant_witness:
  "(\<exists>s as. run [Add ''Alice'', Add ''Bob'', Display, Remove ''Alice'', Add ''Bob'']
        LinkedList_init = Some s \<and>
      cells s as \<and> distinct as \<and> single_predecessor (heap s) (head s) as) \<and>
   cells two_lists [0, 2] \<and> segment (heap two_lists) (Some 1) [1, 3] None \<and>
   list_all (\<lambda>b. b < fresh two_lists) [1, 3] \<and> set [0, 2] \<inter> set [1, 3] = ({} :: addr set) \<and>
   (\<exists>s' as'. run [Add ''Odie'', Remove ''Alice'', Display] two_lists = Some s' \<and>
      cells s' as' \<and> distinct as' \<and>
      segment (heap s') (Some 1) [1, 3] None \<and>
      (\<forall>b\<in>set [1, 3]. heap s' b = heap two_lists b) \<and>
      set as' \<inter> set [1, 3] = {} \<and>
      single_predecessor (heap s') (head s') (as' @ [1, 3]) \<and>
      single_predecessor (heap s') (Some 1) ([1, 3] @ as'))"
proof -
  have h: "cells two_lists [0, 2] \<and> segment (heap two_lists) (Some 1) [1, 3] None \<and>
    list_all (\<lambda>b. b < fresh two_lists) [1, 3] \<and> set [0, 2] \<inter> set [1, 3] = ({} :: addr set)"
    by (simp add: cells_def two_lists_def)
  note t1 = list_structure_invariant
    [of "[Add ''Alice'', Add ''Bob'', Display, Remove ''Alice'', Add ''Bob'']"]
  note t2 = list_structure_invariant
    [of "[Add ''Odie'', Remove ''Alice'', Display]" two_lists "[0, 2]" "Some 1" "[1, 3]"]
  from t1 have first: "\<exists>s as. run [Add ''Alice'', Add ''Bob'', Display, Remove ''Alice'', Add ''Bob'']
        LinkedList_init = Some s \<and>
      cells s as \<and> distinct as \<and> single_predecessor (heap s) (head s) as"
    by (rule conjunct1)
  from t2 have "cells two_lists [0, 2] \<and> segment (heap two_lists) (Some 1) [1, 3] None \<and>
    list_all (\<lambda>b. b < fresh two_lists) [1, 3] \<and> set [0, 2] \<inter> set [1, 3] = ({} :: addr set) \<longrightarrow>
    (\<exists>s' as'. run [Add ''Odie'', Remove ''Alice'', Display] two_lists = Some s' \<and>
      cells s' as' \<and> distinct as' \<and>
      segment (heap s') (Some 1) [1, 3] None \<and>
      (\<forall>b\<in>set [1, 3]. heap s' b = heap two_lists b) \<and>
      set as' \<inter> set [1, 3] = {} \<and>
      single_predecessor (heap s') (head s') (as' @ [1, 3]) \<and>
      single_predecessor (heap s') (Some 1) ([1, 3] @ as'))"
    by (rule conjunct2)
  from this h have second: "\<exists>s' as'. run [Add ''Odie'', Remove ''Alice'', Display] two_lists = Some s' \<and>
      cells s' as' \<and> distinct as' \<and>
      segment (heap s') (Some 1) [1, 3] None \<and>
      (\<forall>b\<in>set [1, 3]. heap s' b = heap two_lists b) \<and>
      set as' \<inter> set [1, 3] = {} \<and>
      single_predecessor (heap s') (head s') (as' @ [1, 3]) \<and>
      single_predecessor (heap s') (Some 1) ([1, 3] @ as')"
    by (rule mp)
  from first h second show ?thesis by (intro conjI) (elim conjE, assumption)+
qed

text \<open>
  C10. Whenever \<^verbatim>\<open>remove(x)\<close> returns true, exactly one node has been unlinked: the
  first one that holds \<open>x\<close>, which is no longer in the list. The list is one node
  shorter, the other nodes keep their order and their names, and the sequence of names
  is the former one with its first occurrence of \<open>x\<close> deleted.
\<close>

theorem remove_true_deletes_first_occurrence:
  assumes "cells s as" and "remove x s = Some (True, s')"
  shows "\<exists>pre c post. as = pre @ c # post \<and> name (heap s c) = x \<and>
           x \<notin> set (names_at s pre) \<and> cells s' (pre @ post) \<and> c \<notin> set (pre @ post) \<and>
           length (pre @ post) + 1 = length as \<and>
           names_at s' (pre @ post) = names_at s pre @ names_at s post \<and>
           names_at s' (pre @ post) = remove1 x (names_at s as)"
proof -
  have "x \<in> set (names_at s as)"
  proof (rule ccontr)
    assume "x \<notin> set (names_at s as)"
    with assms(1) have "remove x s = Some (False, s)" by (rule remove_absent)
    with assms(2) show False by simp
  qed
  from remove_first [OF assms(1) this] obtain s'' pre c post where
    r: "as = pre @ c # post" "x \<notin> set (names_at s pre)" "name (heap s c) = x"
      "remove x s = Some (True, s'')" "cells s'' (pre @ post)"
      "names_at s'' (pre @ post) = names_at s pre @ names_at s post"
    by blast
  from r(4) assms(2) have same: "s'' = s'" by simp
  from assms(1) have "distinct as" by (auto simp: cells_def intro: chain_distinct)
  with r(1) have gone: "c \<notin> set (pre @ post)" by simp
  have "remove1 x (names_at s as) = names_at s pre @ names_at s post"
    using r(1,2,3) by (simp add: names_at_append names_at_Cons remove1_append)
  with r same gone show ?thesis by auto
qed

theorem remove_true_deletes_first_occurrence_witness:
  "cells example_duplicates [0, 1, 2, 3] \<and>
   (\<exists>s'. remove ''Bob'' example_duplicates = Some (True, s') \<and> cells s' [0, 2, 3] \<and>
      names_at s' [0, 2, 3] = [''Alice'', ''Charlie'', ''Bob''])"
proof -
  let ?s' = "example_duplicates\<lparr>heap := (heap example_duplicates)
      (0 := (heap example_duplicates 0)\<lparr>nxt := Some 2\<rparr>)\<rparr>"
  have c: "cells example_duplicates [0, 1, 2, 3]"
    by (simp add: cells_def example_duplicates_def)
  have r: "remove ''Bob'' example_duplicates = Some (True, ?s')"
    by (simp add: remove_def remove_loop.simps example_duplicates_def)
  from remove_true_deletes_first_occurrence [OF c r] obtain pre c' post where
    w: "[0, 1, 2, 3] = pre @ c' # post" "name (heap example_duplicates c') = ''Bob''"
      "''Bob'' \<notin> set (names_at example_duplicates pre)" "cells ?s' (pre @ post)"
    by blast
  have "cells ?s' [0, 2, 3]" by (simp add: cells_def example_duplicates_def)
  moreover have "names_at ?s' [0, 2, 3] = [''Alice'', ''Charlie'', ''Bob'']"
    by (simp add: names_at_def example_duplicates_def)
  ultimately show ?thesis using c r w by blast
qed

end
